theory Spec2Isabelle
  imports Complex_Main "HOL-Library.Product_Lexorder" "HOL-Library.Multiset"
begin

section \<open>Data model\<close>

text \<open>
  The Python dictionaries of the extraction layer become records. Several dictionaries
  share keys (\<^verbatim>\<open>text\<close>, \<^verbatim>\<open>page_num\<close>, \<^verbatim>\<open>font_size\<close>), and some keys are names of HOL
  (\<^verbatim>\<open>top\<close>, \<^verbatim>\<open>size\<close>), so every field carries a prefix naming its dictionary:
  \<open>w_\<close> for a word fragment, \<open>b_\<close> for a text block, \<open>p_\<close> for a page, \<open>f_\<close> for the
  feature view of a block, \<open>e_\<close> for an outline entry.

  Coordinates and font sizes are Python floats. They are modelled as real numbers:
  the arithmetic of the model is exact, the rounding of IEEE doubles is not modelled.
  Strings are lists of 8-bit characters, read as the code points U+0000 to U+00FF.
\<close>

datatype py_error = IndexError | KeyError | ValueError

record word =
  w_text :: string
  w_x0 :: real
  w_top :: real
  w_x1 :: real
  w_bottom :: real
  w_fontname :: string
  w_size :: real

record block =
  b_text :: string
  b_bbox :: "real \<times> real \<times> real \<times> real"
  b_font_name :: string
  b_font_size :: real
  b_page_num :: int

section \<open>pdf\_processor.py: grouping word fragments into blocks\<close>

text \<open>\<^verbatim>\<open>xs[0]\<close> and \<^verbatim>\<open>xs[-1]\<close> raise IndexError on the empty list.\<close>

definition first_item :: "'a list \<Rightarrow> py_error + 'a" where
  "first_item xs = (case xs of [] \<Rightarrow> Inl IndexError | x # _ \<Rightarrow> Inr x)"

definition last_item :: "'a list \<Rightarrow> py_error + 'a" where
  "last_item xs = (if xs = [] then Inl IndexError else Inr (last xs))"

text \<open>\<^verbatim>\<open>min(...)\<close> and \<^verbatim>\<open>max(...)\<close> over a non-empty sequence; \<open>_unify_bbox\<close> guards the
  empty one.\<close>

fun py_min :: "real list \<Rightarrow> real" where
  "py_min [] = 0"
| "py_min (x # xs) = fold min xs x"

fun py_max :: "real list \<Rightarrow> real" where
  "py_max [] = 0"
| "py_max (x # xs) = fold max xs x"

definition unify_bbox :: "(real \<times> real \<times> real \<times> real) list \<Rightarrow> real \<times> real \<times> real \<times> real" where
  "unify_bbox bboxes =
     (if bboxes = [] then (0, 0, 0, 0)
      else (py_min (map (\<lambda>(a, b, c, d). a) bboxes),
            py_min (map (\<lambda>(a, b, c, d). b) bboxes),
            py_max (map (\<lambda>(a, b, c, d). c) bboxes),
            py_max (map (\<lambda>(a, b, c, d). d) bboxes)))"

text \<open>\<^verbatim>\<open>" ".join(xs)\<close>.\<close>

fun join_sp :: "string list \<Rightarrow> string" where
  "join_sp [] = []"
| "join_sp [x] = x"
| "join_sp (x # y # ys) = x @ '' '' @ join_sp (y # ys)"

text \<open>\<^verbatim>\<open>round(x, 2)\<close>: the nearest multiple of 1/100, a tie going to the even one.\<close>

definition py_round2 :: "real \<Rightarrow> real" where
  "py_round2 x =
     (let y = x * 100; f = \<lfloor>y\<rfloor>; d = y - of_int f
      in (if d < 1 / 2 then of_int f
          else if 1 / 2 < d then of_int (f + 1)
          else if even f then of_int f else of_int (f + 1)) / 100)"

text \<open>The tolerance test of line 77: \<^verbatim>\<open>abs(word['top'] - current_line[-1]['top']) < 2\<close>.\<close>

definition same_line :: "word \<Rightarrow> word \<Rightarrow> bool" where
  "same_line word prev \<longleftrightarrow> \<bar>w_top word - w_top prev\<bar> < 2"

text \<open>The loop of lines 76 to 82, with \<open>current_line\<close> and \<open>lines\<close> as accumulators.\<close>

fun line_loop :: "word list \<Rightarrow> word list \<Rightarrow> word list list \<Rightarrow> py_error + word list list" where
  "line_loop [] current_line lines = Inr (lines @ [sort_key w_x0 current_line])"
| "line_loop (word # rest) current_line lines =
     (case last_item current_line of
        Inl e \<Rightarrow> Inl e
      | Inr prev \<Rightarrow>
          if same_line word prev then line_loop rest (current_line @ [word]) lines
          else line_loop rest [word] (lines @ [sort_key w_x0 current_line]))"

definition group_lines :: "word list \<Rightarrow> py_error + word list list" where
  "group_lines words =
     (if words = [] then Inr []
      else case sort_key (\<lambda>w. (w_top w, w_x0 w)) words of
             [] \<Rightarrow> Inl IndexError
           | w # rest \<Rightarrow> line_loop rest [w] [])"

text \<open>Lines 99 to 109 and 115 to 125: the dictionary built for a finished block.\<close>

definition make_block :: "word list list \<Rightarrow> int \<Rightarrow> py_error + block" where
  "make_block current_block_lines page_num =
     (let text = join_sp (map (\<lambda>line. join_sp (map w_text line)) current_block_lines);
          all_words_in_block = concat current_block_lines;
          bboxes = map (\<lambda>w. (w_x0 w, w_top w, w_x1 w, w_bottom w)) all_words_in_block
      in case first_item all_words_in_block of
           Inl e \<Rightarrow> Inl e
         | Inr w \<Rightarrow> Inr \<lparr>b_text = text, b_bbox = unify_bbox bboxes,
                         b_font_name = w_fontname w, b_font_size = py_round2 (w_size w),
                         b_page_num = page_num\<rparr>)"

text \<open>Lines 91 to 96: when a line opens a new block.\<close>

definition is_new_block :: "word \<Rightarrow> word \<Rightarrow> bool" where
  "is_new_block l0 p0 =
     (let vertical_gap = w_top l0 - w_top p0;
          font_name_match = (w_fontname l0 = w_fontname p0);
          font_size_match = (\<bar>w_size l0 - w_size p0\<bar> < 1)
      in vertical_gap > w_size p0 * 1.6 \<or> \<not> font_name_match \<or> \<not> font_size_match)"

text \<open>The loop of lines 88 to 125, with \<open>current_block_lines\<close> and \<open>blocks\<close> as accumulators.\<close>

fun block_loop :: "word list list \<Rightarrow> word list list \<Rightarrow> block list \<Rightarrow> int \<Rightarrow> py_error + block list" where
  "block_loop [] current_block_lines blocks page_num =
     (case make_block current_block_lines page_num of
        Inl e \<Rightarrow> Inl e
      | Inr b \<Rightarrow> Inr (blocks @ [b]))"
| "block_loop (line # rest) current_block_lines blocks page_num =
     (case last_item current_block_lines of
        Inl e \<Rightarrow> Inl e
      | Inr prev_line \<Rightarrow>
     (case first_item line of
        Inl e \<Rightarrow> Inl e
      | Inr l0 \<Rightarrow>
     (case first_item prev_line of
        Inl e \<Rightarrow> Inl e
      | Inr p0 \<Rightarrow>
          if is_new_block l0 p0 then
            (case make_block current_block_lines page_num of
               Inl e \<Rightarrow> Inl e
             | Inr b \<Rightarrow> block_loop rest [line] (blocks @ [b]) page_num)
          else block_loop rest (current_block_lines @ [line]) blocks page_num)))"

definition group_words_into_blocks :: "word list \<Rightarrow> int \<Rightarrow> py_error + block list" where
  "group_words_into_blocks words page_num =
     (if words = [] then Inr []
      else case group_lines words of
             Inl e \<Rightarrow> Inl e
           | Inr lines \<Rightarrow>
               (case lines of
                  [] \<Rightarrow> Inr []
                | l # ls \<Rightarrow> block_loop ls [l] [] page_num))"

subsection \<open>The partition behind the loops\<close>

text \<open>
  The two loops only return sorted lines and finished blocks. The lines in the order
  the fragments were appended, and the lines of each block, are what the loops
  accumulate; the two functions below compute them, and the lemmas of the next
  section show that the loops return their images.
\<close>

fun split_lines :: "word list \<Rightarrow> word list \<Rightarrow> word list list" where
  "split_lines current_line [] = [current_line]"
| "split_lines current_line (word # rest) =
     (if same_line word (last current_line) then split_lines (current_line @ [word]) rest
      else current_line # split_lines [word] rest)"

definition raw_lines :: "word list \<Rightarrow> word list list" where
  "raw_lines words =
     (case sort_key (\<lambda>w. (w_top w, w_x0 w)) words of
        [] \<Rightarrow> []
      | w # rest \<Rightarrow> split_lines [w] rest)"

fun split_blocks :: "word list list \<Rightarrow> word list list \<Rightarrow> word list list list" where
  "split_blocks current_block_lines [] = [current_block_lines]"
| "split_blocks current_block_lines (line # rest) =
     (if is_new_block (hd line) (hd (last current_block_lines))
      then current_block_lines # split_blocks [line] rest
      else split_blocks (current_block_lines @ [line]) rest)"

definition block_groups :: "word list \<Rightarrow> word list list list" where
  "block_groups words =
     (case map (sort_key w_x0) (raw_lines words) of
        [] \<Rightarrow> []
      | l # ls \<Rightarrow> split_blocks [l] ls)"




section \<open>hierarchy\_builder.py: the string operations\<close>

text \<open>
  The character classes of Python's \<^verbatim>\<open>str\<close> methods and of the \<^verbatim>\<open>re\<close> module on the code
  points U+0000 to U+00FF: \<^verbatim>\<open>str.isspace\<close> and \<^verbatim>\<open>\s\<close> agree; \<^verbatim>\<open>\d\<close> is the ten
  decimal digits, \<^verbatim>\<open>str.isdigit\<close> accepts the superscripts U+00B2, U+00B3 and U+00B9
  as well.
\<close>

definition is_space :: "char \<Rightarrow> bool" where
  "is_space c =
     (let n = (of_char c :: nat)
      in (9 \<le> n \<and> n \<le> 13) \<or> (28 \<le> n \<and> n \<le> 32) \<or> n = 133 \<or> n = 160)"

definition is_decimal :: "char \<Rightarrow> bool" where
  "is_decimal c = (let n = (of_char c :: nat) in 48 \<le> n \<and> n \<le> 57)"

definition is_digit_char :: "char \<Rightarrow> bool" where
  "is_digit_char c =
     (let n = (of_char c :: nat) in (48 \<le> n \<and> n \<le> 57) \<or> n = 178 \<or> n = 179 \<or> n = 185)"

definition is_upper :: "char \<Rightarrow> bool" where
  "is_upper c =
     (let n = (of_char c :: nat)
      in (65 \<le> n \<and> n \<le> 90) \<or> (192 \<le> n \<and> n \<le> 214) \<or> (216 \<le> n \<and> n \<le> 222))"

definition is_lower :: "char \<Rightarrow> bool" where
  "is_lower c =
     (let n = (of_char c :: nat)
      in (97 \<le> n \<and> n \<le> 122) \<or> n = 170 \<or> n = 181 \<or> n = 186 \<or>
         (223 \<le> n \<and> n \<le> 246) \<or> (248 \<le> n \<and> n \<le> 255))"

definition to_lower :: "char \<Rightarrow> char" where
  "to_lower c = (if is_upper c then char_of ((of_char c :: nat) + 32) else c)"

definition newline :: char where
  "newline = CHR 0x0A"

text \<open>\<^verbatim>\<open>s.strip()\<close>, \<^verbatim>\<open>s.split()\<close>, \<^verbatim>\<open>s.isupper()\<close>, \<^verbatim>\<open>s.isdigit()\<close>, \<^verbatim>\<open>s.lower()\<close>,
  \<^verbatim>\<open>sub in s\<close> and \<^verbatim>\<open>s.replace("\n", " ")\<close>.\<close>

definition py_strip :: "string \<Rightarrow> string" where
  "py_strip s = rev (dropWhile is_space (rev (dropWhile is_space s)))"

fun split_acc :: "string \<Rightarrow> string \<Rightarrow> string list" where
  "split_acc cur [] = (if cur = [] then [] else [cur])"
| "split_acc cur (c # cs) =
     (if is_space c then (if cur = [] then split_acc [] cs else cur # split_acc [] cs)
      else split_acc (cur @ [c]) cs)"

definition py_split :: "string \<Rightarrow> string list" where
  "py_split s = split_acc [] s"

definition py_isupper :: "string \<Rightarrow> bool" where
  "py_isupper s \<longleftrightarrow> list_all (\<lambda>c. \<not> is_lower c) s \<and> list_ex is_upper s"

definition py_isdigit :: "string \<Rightarrow> bool" where
  "py_isdigit s \<longleftrightarrow> s \<noteq> [] \<and> list_all is_digit_char s"

definition py_lower :: "string \<Rightarrow> string" where
  "py_lower s = map to_lower s"

fun starts_with :: "string \<Rightarrow> string \<Rightarrow> bool" where
  "starts_with [] s = True"
| "starts_with (a # as) [] = False"
| "starts_with (a # as) (c # cs) = (a = c \<and> starts_with as cs)"

fun py_in :: "string \<Rightarrow> string \<Rightarrow> bool" where
  "py_in sub [] = (sub = [])"
| "py_in sub (c # cs) = (starts_with sub (c # cs) \<or> py_in sub cs)"

definition replace_newlines :: "string \<Rightarrow> string" where
  "replace_newlines s = map (\<lambda>c. if c = newline then CHR '' '' else c) s"

subsection \<open>The two regular expressions\<close>

text \<open>
  The patterns use character classes, concatenation and repetition only. They are
  kept as syntax trees and matched by derivatives. \<^verbatim>\<open>re.match\<close> asks for a match of
  a prefix of the text; \<^verbatim>\<open>re.search\<close> with a pattern that ends in \<^verbatim>\<open>$\<close> asks for a match
  of a suffix, or of a suffix of the text without its final newline.
\<close>

datatype cclass = Digit | Space | Lit char

fun in_class :: "cclass \<Rightarrow> char \<Rightarrow> bool" where
  "in_class Digit c = is_decimal c"
| "in_class Space c = is_space c"
| "in_class (Lit a) c = (c = a)"

datatype rx = Zero | One | Atom cclass | Alt rx rx | Seq rx rx | Star rx

definition Plus :: "rx \<Rightarrow> rx" where
  "Plus r = Seq r (Star r)"

fun nullable :: "rx \<Rightarrow> bool" where
  "nullable Zero = False"
| "nullable One = True"
| "nullable (Atom a) = False"
| "nullable (Alt r s) = (nullable r \<or> nullable s)"
| "nullable (Seq r s) = (nullable r \<and> nullable s)"
| "nullable (Star r) = True"

fun deriv :: "char \<Rightarrow> rx \<Rightarrow> rx" where
  "deriv c Zero = Zero"
| "deriv c One = Zero"
| "deriv c (Atom a) = (if in_class a c then One else Zero)"
| "deriv c (Alt r s) = Alt (deriv c r) (deriv c s)"
| "deriv c (Seq r s) =
     (if nullable r then Alt (Seq (deriv c r) s) (deriv c s) else Seq (deriv c r) s)"
| "deriv c (Star r) = Seq (deriv c r) (Star r)"

fun rx_full :: "rx \<Rightarrow> string \<Rightarrow> bool" where
  "rx_full r [] = nullable r"
| "rx_full r (c # cs) = rx_full (deriv c r) cs"

fun re_match :: "rx \<Rightarrow> string \<Rightarrow> bool" where
  "re_match r [] = nullable r"
| "re_match r (c # cs) = (nullable r \<or> re_match (deriv c r) cs)"

definition at_end :: "rx \<Rightarrow> string \<Rightarrow> bool" where
  "at_end r s \<longleftrightarrow> rx_full r s \<or> (s \<noteq> [] \<and> last s = newline \<and> rx_full r (butlast s))"

fun re_search_end :: "rx \<Rightarrow> string \<Rightarrow> bool" where
  "re_search_end r [] = at_end r []"
| "re_search_end r (c # cs) = (at_end r (c # cs) \<or> re_search_end r cs)"

text \<open>\<^verbatim>\<open>^\d+(\.\d+)*\s+\<close> of line 38 and \<^verbatim>\<open>\.{4,}\s*\d+\s*$\<close> of line 25 (without the
  final \<^verbatim>\<open>$\<close>, which is \<open>re_search_end\<close>).\<close>

definition number_prefix_rx :: rx where
  "number_prefix_rx =
     Seq (Plus (Atom Digit))
       (Seq (Star (Seq (Atom (Lit CHR ''.'')) (Plus (Atom Digit)))) (Plus (Atom Space)))"

definition toc_rx :: rx where
  "toc_rx =
     Seq (Atom (Lit CHR ''.'')) (Seq (Atom (Lit CHR ''.'')) (Seq (Atom (Lit CHR ''.''))
       (Seq (Atom (Lit CHR ''.'')) (Seq (Star (Atom (Lit CHR ''.'')))
         (Seq (Star (Atom Space)) (Seq (Plus (Atom Digit)) (Star (Atom Space))))))))"

section \<open>hierarchy\_builder.py: the classifier\<close>

record features =
  f_text :: string
  f_font_size :: real
  f_is_bold :: bool
  f_is_all_caps :: bool
  f_starts_with_number :: bool
  f_is_centered :: bool
  f_word_count :: nat
  f_is_toc :: bool
  f_original_block :: block

text \<open>A heading level: \<open>H n\<close> is the string \<^verbatim>\<open>f"H{n}"\<close>.\<close>

datatype level = H nat

text \<open>An outline entry; \<open>e_y_pos\<close> is \<open>None\<close> when the dictionary has no key
  \<^verbatim>\<open>y_pos\<close>.\<close>

record entry =
  e_level :: level
  e_text :: string
  e_page :: int
  e_y_pos :: "real option"

record result =
  r_title :: string
  r_outline :: "entry list"

text \<open>A page; \<open>p_width\<close> and \<open>p_height\<close> are \<open>None\<close> when the key is absent, an
  absent \<^verbatim>\<open>text_blocks\<close> is the empty list.\<close>

record page =
  p_page_num :: int
  p_width :: "real option"
  p_height :: "real option"
  p_text_blocks :: "block list"

definition bbox_x0 :: "block \<Rightarrow> real" where
  "bbox_x0 b = (case b_bbox b of (x0, y0, x1, y1) \<Rightarrow> x0)"

definition bbox_top :: "block \<Rightarrow> real" where
  "bbox_top b = (case b_bbox b of (x0, y0, x1, y1) \<Rightarrow> y0)"

definition bbox_x1 :: "block \<Rightarrow> real" where
  "bbox_x1 b = (case b_bbox b of (x0, y0, x1, y1) \<Rightarrow> x1)"

definition is_header_or_footer :: "block \<Rightarrow> real \<Rightarrow> bool" where
  "is_header_or_footer block page_height =
     (let y_pos = bbox_top block
      in y_pos < page_height * 0.08 \<or> y_pos > page_height * 0.92)"

definition is_toc_entry :: "string \<Rightarrow> bool" where
  "is_toc_entry text = re_search_end toc_rx text"

definition get_block_features :: "block \<Rightarrow> real \<Rightarrow> features" where
  "get_block_features block page_width =
     (let text = py_strip (b_text block);
          x0 = bbox_x0 block;
          x1 = bbox_x1 block;
          word_count = length (py_split text)
      in \<lparr>f_text = text,
          f_font_size = b_font_size block,
          f_is_bold = (py_in ''bold'' (py_lower (b_font_name block)) \<or>
                       py_in ''black'' (py_lower (b_font_name block))),
          f_is_all_caps = (py_isupper text \<and> word_count > 0),
          f_starts_with_number = re_match number_prefix_rx text,
          f_is_centered = (\<bar>(x0 + x1) / 2 - page_width / 2\<bar> < page_width * 0.15),
          f_word_count = word_count,
          f_is_toc = is_toc_entry text,
          f_original_block = block\<rparr>)"

text \<open>The disqualifiers of line 48.\<close>

definition disqualified :: "features \<Rightarrow> bool" where
  "disqualified features \<longleftrightarrow>
     f_text features = [] \<or> f_word_count features > 20 \<or> f_is_toc features \<or>
     py_isdigit (f_text features)"

definition is_potential_heading :: "features \<Rightarrow> bool" where
  "is_potential_heading features =
     (if disqualified features then False
      else if f_font_size features > 14 \<and> f_word_count features < 15 then True
      else if f_starts_with_number features \<and> f_word_count features < 15 then True
      else if f_is_bold features \<and> f_word_count features < 15 then True
      else if f_is_all_caps features \<and> f_font_size features > 11 \<and> f_word_count features < 15
      then True
      else False)"

text \<open>The loop of lines 71 to 85 with its two \<^verbatim>\<open>continue\<close>s.\<close>

fun title_loop :: "block list \<Rightarrow> real \<Rightarrow> (real \<times> string) list \<Rightarrow> (real \<times> string) list" where
  "title_loop [] page_width candidates = candidates"
| "title_loop (block # rest) page_width candidates =
     (if bbox_top block > 400 then title_loop rest page_width candidates
      else
        let features = get_block_features block page_width
        in if f_text features = [] \<or> f_word_count features > 25
           then title_loop rest page_width candidates
           else
             let score = f_font_size features;
                 score = (if f_is_centered features then score * 1.5 else score);
                 score = (if f_is_bold features then score * 1.2 else score)
             in title_loop rest page_width (candidates @ [(score, f_text features)]))"

text \<open>\<^verbatim>\<open>max(xs, key=lambda item: item[0])\<close> on a non-empty list: the running maximum is
  replaced only by a strictly greater key.\<close>

fun py_max_key :: "(real \<times> string) \<Rightarrow> (real \<times> string) list \<Rightarrow> (real \<times> string)" where
  "py_max_key best [] = best"
| "py_max_key best (x # xs) = py_max_key (if fst x > fst best then x else best) xs"

definition extract_title :: "block list \<Rightarrow> real \<Rightarrow> string" where
  "extract_title text_blocks page_width =
     (let first_page_blocks =
            filter (\<lambda>b. b_page_num b = 1 \<and> py_strip (b_text b) \<noteq> []) text_blocks
      in if first_page_blocks = [] then ''Untitled Document''
         else case title_loop first_page_blocks page_width [] of
                [] \<Rightarrow> ''Untitled Document''
              | c # cs \<Rightarrow> snd (py_max_key c cs))"

subsection \<open>Level assignment\<close>

text \<open>
  \<^verbatim>\<open>KMeans(n_clusters, random_state=42, n_init='auto').fit(font_sizes)\<close> belongs to
  scikit-learn, not to this program. It is a parameter of the model: a function from the
  number of clusters and the samples to \<^verbatim>\<open>cluster_centers_\<close> and \<^verbatim>\<open>labels_\<close>.
\<close>

type_synonym kmeans = "nat \<Rightarrow> real list \<Rightarrow> real list \<times> nat list"

text \<open>The dictionary comprehension of line 108: a later center overwrites an equal
  earlier one.\<close>

fun size_to_level_from :: "nat \<Rightarrow> real list \<Rightarrow> (real \<rightharpoonup> level) \<Rightarrow> (real \<rightharpoonup> level)" where
  "size_to_level_from i [] m = m"
| "size_to_level_from i (center # rest) m = size_to_level_from (i + 1) rest (m(center \<mapsto> H (i + 1)))"

text \<open>The loop of lines 111 to 122; \<open>i\<close> is the index of \<^verbatim>\<open>enumerate\<close>.\<close>

fun level_loop ::
  "(real \<rightharpoonup> level) \<Rightarrow> nat \<Rightarrow> real list \<Rightarrow> nat list \<Rightarrow> nat \<Rightarrow> features list \<Rightarrow> entry list
   \<Rightarrow> py_error + entry list" where
  "level_loop size_to_level n_clusters centers labels i [] outline = Inr outline"
| "level_loop size_to_level n_clusters centers labels i (features # rest) outline =
     (if length labels \<le> i then Inl IndexError
      else
        let cluster_label = labels ! i
        in if length centers \<le> cluster_label then Inl IndexError
           else
             let cluster_center = centers ! cluster_label;
                 level = (case size_to_level cluster_center of
                            None \<Rightarrow> H n_clusters
                          | Some l \<Rightarrow> l);
                 block = f_original_block features
             in level_loop size_to_level n_clusters centers labels (i + 1) rest
                  (outline @ [\<lparr>e_level = level, e_text = f_text features,
                               e_page = b_page_num block, e_y_pos = Some (bbox_top block)\<rparr>]))"

definition assign_heading_levels :: "kmeans \<Rightarrow> features list \<Rightarrow> py_error + entry list" where
  "assign_heading_levels km heading_candidates =
     (if heading_candidates = [] then Inr []
      else if length heading_candidates = 1 then
        (let block = f_original_block (hd heading_candidates)
         in Inr [\<lparr>e_level = H 1, e_text = f_text (hd heading_candidates),
                  e_page = b_page_num block, e_y_pos = None\<rparr>])
      else
        let font_sizes = map f_font_size heading_candidates;
            unique_sizes = sort (remdups font_sizes);
            n_clusters = min (length unique_sizes) 3
        in if n_clusters = 0 then Inr []
           else
             let (centers, labels) = km n_clusters font_sizes;
                 cluster_centers = rev (sort centers);
                 size_to_level = size_to_level_from 0 cluster_centers Map.empty
             in level_loop size_to_level n_clusters centers labels 0 heading_candidates [])"

subsection \<open>build\<close>

text \<open>Line 147: the key function reads \<^verbatim>\<open>x['y_pos']\<close> of every entry, also of a single
  one, before anything is compared.\<close>

definition entry_key :: "entry \<Rightarrow> py_error + (int \<times> real)" where
  "entry_key x = (case e_y_pos x of None \<Rightarrow> Inl KeyError | Some y \<Rightarrow> Inr (e_page x, y))"

definition key_or_zero :: "entry \<Rightarrow> int \<times> real" where
  "key_or_zero x = (case entry_key x of Inl e \<Rightarrow> (0, 0) | Inr k \<Rightarrow> k)"

definition sort_outline :: "entry list \<Rightarrow> py_error + entry list" where
  "sort_outline outline =
     (if list_ex (\<lambda>x. entry_key x = Inl KeyError) outline then Inl KeyError
      else Inr (sort_key key_or_zero outline))"

text \<open>Lines 150 and 151: \<^verbatim>\<open>del item['y_pos']\<close> raises KeyError on an absent key.\<close>

fun del_y_pos :: "entry list \<Rightarrow> py_error + entry list" where
  "del_y_pos [] = Inr []"
| "del_y_pos (item # rest) =
     (case e_y_pos item of
        None \<Rightarrow> Inl KeyError
      | Some y \<Rightarrow>
          (case del_y_pos rest of
             Inl e \<Rightarrow> Inl e
           | Inr rest' \<Rightarrow> Inr (item\<lparr>e_y_pos := None\<rparr> # rest')))"

definition page_height_of :: "page list \<Rightarrow> real" where
  "page_height_of processed_pages =
     (case p_height (hd processed_pages) of None \<Rightarrow> 842 | Some h \<Rightarrow> h)"

definition page_width_of :: "page list \<Rightarrow> real" where
  "page_width_of processed_pages =
     (case p_width (hd processed_pages) of None \<Rightarrow> 595 | Some w \<Rightarrow> w)"

definition core_content_blocks :: "page list \<Rightarrow> block list" where
  "core_content_blocks processed_pages =
     (let all_blocks = concat (map p_text_blocks processed_pages);
          page_height = page_height_of processed_pages
      in filter (\<lambda>b. \<not> is_header_or_footer b page_height) all_blocks)"

definition heading_candidates_of :: "page list \<Rightarrow> features list" where
  "heading_candidates_of processed_pages =
     (let page_width = page_width_of processed_pages;
          core = core_content_blocks processed_pages;
          title = extract_title core page_width;
          block_features = map (\<lambda>b. get_block_features b page_width) core;
          heading_candidates = filter is_potential_heading block_features
      in filter (\<lambda>h. f_text h \<noteq> title) heading_candidates)"

definition build :: "kmeans \<Rightarrow> page list \<Rightarrow> py_error + result" where
  "build km processed_pages =
     (if processed_pages = [] then Inr \<lparr>r_title = ''No Content Found'', r_outline = []\<rparr>
      else
        let page_width = page_width_of processed_pages;
            title = extract_title (core_content_blocks processed_pages) page_width;
            heading_candidates = heading_candidates_of processed_pages
        in case assign_heading_levels km heading_candidates of
             Inl e \<Rightarrow> Inl e
           | Inr outline \<Rightarrow>
               (case sort_outline outline of
                  Inl e \<Rightarrow> Inl e
                | Inr outline \<Rightarrow>
                    (case del_y_pos outline of
                       Inl e \<Rightarrow> Inl e
                     | Inr outline \<Rightarrow>
                         Inr \<lparr>r_title = py_strip (replace_newlines title),
                              r_outline = outline\<rparr>)))"

section \<open>What a pattern matches\<close>

text \<open>The language of a pattern: the reference the derivative matcher is proved
  against.\<close>

inductive_set star :: "string set \<Rightarrow> string set" for A :: "string set" where
  star_empty: "[] \<in> star A"
| star_step: "u \<in> A \<Longrightarrow> v \<in> star A \<Longrightarrow> u @ v \<in> star A"

fun lang :: "rx \<Rightarrow> string set" where
  "lang Zero = {}"
| "lang One = {[]}"
| "lang (Atom a) = {[c] | c. in_class a c}"
| "lang (Alt r s) = lang r \<union> lang s"
| "lang (Seq r s) = {u @ v | u v. u \<in> lang r \<and> v \<in> lang s}"
| "lang (Star r) = star (lang r)"

section \<open>Notions used in the statements\<close>

text \<open>An entry with its sort key, made from a heading candidate by the loop of the level
  assignment.\<close>

definition from_candidate :: "features \<Rightarrow> entry \<Rightarrow> bool" where
  "from_candidate h e \<longleftrightarrow>
     e_text e = f_text h \<and> e_page e = b_page_num (f_original_block h) \<and>
     e_y_pos e = Some (bbox_top (f_original_block h))"

text \<open>A text that neither starts nor ends with white space.\<close>

definition stripped :: "string \<Rightarrow> bool" where
  "stripped s \<longleftrightarrow> s = [] \<or> (\<not> is_space (hd s) \<and> \<not> is_space (last s))"






text \<open>
  What a fit of the clustering is taken to guarantee where a statement needs it: as many
  centers as clusters asked for, a label below that number for every sample, no empty
  cluster, and every center the mean of the samples of its cluster.
\<close>

definition cluster_members :: "real list \<Rightarrow> nat list \<Rightarrow> nat \<Rightarrow> real list" where
  "cluster_members xs labels j = map fst (filter (\<lambda>(x, l). l = j) (zip xs labels))"

definition kmeans_fit_ok :: "nat \<Rightarrow> real list \<Rightarrow> real list \<times> nat list \<Rightarrow> bool" where
  "kmeans_fit_ok k xs fit =
     (case fit of (centers, labels) \<Rightarrow>
        length centers = k \<and> length labels = length xs \<and> list_all (\<lambda>l. l < k) labels \<and>
        list_all (\<lambda>j. cluster_members xs labels j \<noteq> [] \<and>
                      centers ! j = sum_list (cluster_members xs labels j)
                                      / real (length (cluster_members xs labels j)))
          [0..<k])"

text \<open>The entry the loop of the level assignment makes of the candidate at index
  \<open>n\<close>.\<close>

definition entry_at ::
  "(real \<rightharpoonup> level) \<Rightarrow> nat \<Rightarrow> real list \<Rightarrow> nat list \<Rightarrow> nat \<Rightarrow> features \<Rightarrow> entry" where
  "entry_at m k centers labels n f =
     \<lparr>e_level = (case m (centers ! (labels ! n)) of None \<Rightarrow> H k | Some l \<Rightarrow> l),
      e_text = f_text f, e_page = b_page_num (f_original_block f),
      e_y_pos = Some (bbox_top (f_original_block f))\<rparr>"

section \<open>Concrete inputs\<close>

text \<open>Three fragments whose tops drift by one unit each: 0, 1 and 2.\<close>

definition drift_words :: "word list" where
  "drift_words =
     [\<lparr>w_text = ''a'', w_x0 = 0, w_top = 0, w_x1 = 5, w_bottom = 10,
       w_fontname = ''Regular'', w_size = 10\<rparr>,
      \<lparr>w_text = ''b'', w_x0 = 10, w_top = 1, w_x1 = 15, w_bottom = 11,
       w_fontname = ''Regular'', w_size = 10\<rparr>,
      \<lparr>w_text = ''c'', w_x0 = 20, w_top = 2, w_x1 = 25, w_bottom = 12,
       w_fontname = ''Regular'', w_size = 10\<rparr>]"

text \<open>A block of page 1 between x = 100 and x = 200, with the given text, top, font
  size and font name.\<close>

definition example_block :: "string \<Rightarrow> real \<Rightarrow> real \<Rightarrow> string \<Rightarrow> block" where
  "example_block t y sz fnt =
     \<lparr>b_text = t, b_bbox = (100, y, 200, y + sz), b_font_name = fnt, b_font_size = sz,
      b_page_num = 1\<rparr>"

definition numbered_dot_block :: block where
  "numbered_dot_block = example_block ''1. Introduction'' 200 12 ''Regular''"

definition numbered_block :: block where
  "numbered_block = example_block ''1.2 Scope'' 200 12 ''Regular''"

text \<open>A page whose only fragment is a heading in the lower half.\<close>

definition heading_word :: word where
  "heading_word =
     \<lparr>w_text = ''Heading'', w_x0 = 100, w_top = 500, w_x1 = 200, w_bottom = 516,
      w_fontname = ''Regular'', w_size = 16\<rparr>"

definition single_pages :: "page list" where
  "single_pages =
     [\<lparr>p_page_num = 1, p_width = Some 595, p_height = Some 842,
       p_text_blocks = [example_block ''Heading'' 500 16 ''Regular'']\<rparr>]"

text \<open>
  A stand-in for the clustering in the examples: every distinct value is a center, in the
  order of first occurrence, and every sample carries the index of its own value. This is
  the k-means fit when the number of clusters is the number of distinct values, which
  holds for up to three distinct values.
\<close>

definition distinct_values_fit :: kmeans where
  "distinct_values_fit k xs =
     (let centers = remdups xs
      in (centers, map (\<lambda>x. length (takeWhile (\<lambda>c. c \<noteq> x) centers)) xs))"

text \<open>One page with a title and two headings, the lower heading listed first.\<close>

definition report_pages :: "page list" where
  "report_pages =
     [\<lparr>p_page_num = 1, p_width = None, p_height = None,
       p_text_blocks = [example_block ''Report'' 100 24 ''Regular'',
                        example_block ''Methods'' 300 16 ''Regular'',
                        example_block ''Overview'' 200 18 ''Regular'']\<rparr>]"

definition report_result :: result where
  "report_result =
     \<lparr>r_title = ''Report'',
      r_outline = [\<lparr>e_level = H 1, e_text = ''Overview'', e_page = 1, e_y_pos = None\<rparr>,
                   \<lparr>e_level = H 2, e_text = ''Methods'', e_page = 1, e_y_pos = None\<rparr>]\<rparr>"

text \<open>One page whose title block has a line break inside its text, followed by a block
  with the same words on one line.\<close>

definition newline_pages :: "page list" where
  "newline_pages =
     [\<lparr>p_page_num = 1, p_width = None, p_height = None,
       p_text_blocks = [example_block [CHR ''A'', newline, CHR ''B''] 100 30 ''Regular'',
                        example_block ''A B'' 200 16 ''Regular'',
                        example_block ''C D'' 300 16 ''Regular'']\<rparr>]"

definition newline_result :: result where
  "newline_result =
     \<lparr>r_title = ''A B'',
      r_outline = [\<lparr>e_level = H 1, e_text = ''A B'', e_page = 1, e_y_pos = None\<rparr>,
                   \<lparr>e_level = H 1, e_text = ''C D'', e_page = 1, e_y_pos = None\<rparr>]\<rparr>"

text \<open>Three heading candidates of 18, 14 and 10 units.\<close>

definition sized_candidates :: "features list" where
  "sized_candidates =
     [get_block_features (example_block ''Results'' 100 18 ''Regular'') 595,
      get_block_features (example_block ''Setup'' 200 14 ''Bold'') 595,
      get_block_features (example_block ''2.1 Data'' 300 10 ''Regular'') 595]"

section \<open>Properties of the grouping\<close>

lemma line_loop_eq:
  "current_line \<noteq> [] \<Longrightarrow>
   line_loop rest current_line lines = Inr (lines @ map (sort_key w_x0) (split_lines current_line rest))"
  by (induction rest arbitrary: current_line lines) (simp_all add: last_item_def)

lemma group_lines_eq: "group_lines words = Inr (map (sort_key w_x0) (raw_lines words))"
proof (cases "sort_key (\<lambda>w. (w_top w, w_x0 w)) words")
  case Nil
  then have "length words = 0" by (metis length_sort list.size(3))
  with Nil show ?thesis by (simp add: group_lines_def raw_lines_def)
next
  case (Cons w rest)
  then have "words \<noteq> []" by auto
  with Cons show ?thesis by (simp add: group_lines_def raw_lines_def line_loop_eq)
qed

lemma concat_split_lines: "concat (split_lines cur ws) = cur @ ws"
  by (induction ws arbitrary: cur) simp_all

lemma split_lines_nonempty: "cur \<noteq> [] \<Longrightarrow> l \<in> set (split_lines cur ws) \<Longrightarrow> l \<noteq> []"
  by (induction ws arbitrary: cur) (auto split: if_splits)






lemma join_sp_contains: "x \<in> set xs \<Longrightarrow> \<exists>pre post. join_sp xs = pre @ x @ post"
proof (induction xs rule: join_sp.induct)
  case 1
  then show ?case by simp
next
  case (2 y)
  then have "join_sp [y] = [] @ x @ []" by simp
  then show ?case by blast
next
  case (3 a b bs)
  show ?case
  proof (cases "x = a")
    case True
    then have "join_sp (a # b # bs) = [] @ x @ ('' '' @ join_sp (b # bs))" by simp
    then show ?thesis by blast
  next
    case False
    with 3 obtain pre post where "join_sp (b # bs) = pre @ x @ post" by auto
    then have "join_sp (a # b # bs) = (a @ '' '' @ pre) @ x @ post" by simp
    then show ?thesis by blast
  qed
qed

lemma make_block_text:
  assumes "make_block g pn = Inr b" "line \<in> set g" "w \<in> set line"
  shows "\<exists>pre post. b_text b = pre @ w_text w @ post"
proof -
  have t: "b_text b = join_sp (map (\<lambda>ln. join_sp (map w_text ln)) g)"
    using assms(1) by (auto simp: make_block_def Let_def split: sum.splits)
  obtain p1 q1 where 1: "join_sp (map w_text line) = p1 @ w_text w @ q1"
    using join_sp_contains [of "w_text w" "map w_text line"] assms(3) by auto
  obtain p2 q2 where 2: "join_sp (map (\<lambda>ln. join_sp (map w_text ln)) g) = p2 @ join_sp (map w_text line) @ q2"
    using join_sp_contains [of "join_sp (map w_text line)" "map (\<lambda>ln. join_sp (map w_text ln)) g"] assms(2) by auto
  have "b_text b = (p2 @ p1) @ w_text w @ (q1 @ q2)" using t 1 2 by simp
  then show ?thesis by blast
qed

lemma make_block_total: "concat g \<noteq> [] \<Longrightarrow> \<exists>b. make_block g pn = Inr b"
  by (cases "concat g") (auto simp: make_block_def Let_def first_item_def)

lemma concat_split_blocks: "concat (split_blocks cur ls) = cur @ ls"
  by (induction ls arbitrary: cur) simp_all

lemma block_loop_eq:
  "cur \<noteq> [] \<Longrightarrow> [] \<notin> set cur \<Longrightarrow> [] \<notin> set rest \<Longrightarrow>
   \<exists>bs. block_loop rest cur blocks pn = Inr (blocks @ bs) \<and>
        list_all2 (\<lambda>g b. make_block g pn = Inr b) (split_blocks cur rest) bs"
proof (induction rest arbitrary: cur blocks)
  case Nil
  then have "concat cur \<noteq> []" by (cases cur) auto
  then obtain b where "make_block cur pn = Inr b" using make_block_total by blast
  then show ?case by simp
next
  case (Cons line rest)
  from Cons.prems have c: "concat cur \<noteq> []" by (cases cur) auto
  then obtain b where b: "make_block cur pn = Inr b" using make_block_total by blast
  from Cons.prems have line: "line \<noteq> []" by auto
  from Cons.prems have lc: "last cur \<noteq> []" using last_in_set [of cur] by metis
  have fi: "first_item line = Inr (hd line)" "first_item (last cur) = Inr (hd (last cur))"
    using line lc by (auto simp: first_item_def split: list.splits)
  show ?case
  proof (cases "is_new_block (hd line) (hd (last cur))")
    case True
    from Cons.IH [of "[line]" "blocks @ [b]"] Cons.prems line
    obtain bs where "block_loop rest [line] (blocks @ [b]) pn = Inr ((blocks @ [b]) @ bs)"
      "list_all2 (\<lambda>g b. make_block g pn = Inr b) (split_blocks [line] rest) bs" by auto
    with True b fi Cons.prems show ?thesis
      by (intro exI [of _ "b # bs"]) (simp add: last_item_def)
  next
    case False
    from Cons.IH [of "cur @ [line]" blocks] Cons.prems line
    obtain bs where "block_loop rest (cur @ [line]) blocks pn = Inr (blocks @ bs)"
      "list_all2 (\<lambda>g b. make_block g pn = Inr b) (split_blocks (cur @ [line]) rest) bs" by auto
    with False b fi Cons.prems show ?thesis
      by (intro exI [of _ bs]) (simp add: last_item_def)
  qed
qed

lemma split_blocks_not_Nil: "split_blocks cur ls \<noteq> []"
  by (induction ls arbitrary: cur) auto

lemma raw_lines_concat: "concat (raw_lines words) = sort_key (\<lambda>w. (w_top w, w_x0 w)) words"
  by (cases "sort_key (\<lambda>w. (w_top w, w_x0 w)) words") (auto simp: raw_lines_def concat_split_lines)

lemma raw_lines_nonempty: "l \<in> set (raw_lines words) \<Longrightarrow> l \<noteq> []"
  by (cases "sort_key (\<lambda>w. (w_top w, w_x0 w)) words")
     (auto simp: raw_lines_def dest: split_lines_nonempty [rotated])

lemma raw_lines_not_Nil: "words \<noteq> [] \<Longrightarrow> raw_lines words \<noteq> []"
proof
  assume "words \<noteq> []" "raw_lines words = []"
  then have "sort_key (\<lambda>w. (w_top w, w_x0 w)) words = []" using raw_lines_concat [of words] by simp
  then have "length words = 0" by (metis length_sort list.size(3))
  with \<open>words \<noteq> []\<close> show False by simp
qed

subsection \<open>Line assembly\<close>




subsection \<open>Every fragment in one line, every line in one block\<close>

text \<open>
  Claim C9: for a non-empty list of fragments the grouping returns blocks, at least one;
  the blocks are built, one each and in order, from the groups of lines
  \<open>block_groups\<close>; the groups, one after the other, are the lines that the line
  assembly returns, and these lines hold the input fragments, each as often as the input
  does; and the text of a block contains the text of every fragment of its group.
\<close>

theorem group_partitions_fragments:
  assumes "words \<noteq> []"
  shows "\<exists>blocks. group_words_into_blocks words page_num = Inr blocks \<and> blocks \<noteq> [] \<and>
           list_all2 (\<lambda>g b. make_block g page_num = Inr b \<and>
                            (\<forall>line \<in> set g. \<forall>w \<in> set line.
                               \<exists>pre post. b_text b = pre @ w_text w @ post))
             (block_groups words) blocks \<and>
           group_lines words = Inr (concat (block_groups words)) \<and>
           mset (concat (concat (block_groups words))) = mset words"
proof -
  obtain l ls where ls: "map (sort_key w_x0) (raw_lines words) = l # ls"
    using raw_lines_not_Nil [OF assms] by (cases "raw_lines words") auto
  have ne: "[] \<notin> set (map (sort_key w_x0) (raw_lines words))"
  proof
    assume "[] \<in> set (map (sort_key w_x0) (raw_lines words))"
    then obtain r where r: "r \<in> set (raw_lines words)" "sort_key w_x0 r = []" by auto
    from r(2) have "length r = 0" by (metis length_sort list.size(3))
    with raw_lines_nonempty [OF r(1)] show False by simp
  qed
  with ls have l: "l \<noteq> []" "[] \<notin> set ls" by auto
  from block_loop_eq [of "[l]" ls "[]" page_num] l
  obtain bs where bs: "block_loop ls [l] [] page_num = Inr bs"
    "list_all2 (\<lambda>g b. make_block g page_num = Inr b) (split_blocks [l] ls) bs" by auto
  have g: "block_groups words = split_blocks [l] ls" using ls by (simp add: block_groups_def)
  have 1: "group_words_into_blocks words page_num = Inr bs"
    using assms ls bs(1) by (simp add: group_words_into_blocks_def group_lines_eq)
  have 2: "bs \<noteq> []" using bs(2) split_blocks_not_Nil [of "[l]" ls] by auto
  have 3: "list_all2 (\<lambda>g b. make_block g page_num = Inr b \<and>
                            (\<forall>line \<in> set g. \<forall>w \<in> set line. \<exists>pre post. b_text b = pre @ w_text w @ post))
             (block_groups words) bs"
    using bs(2) unfolding g by (rule list_all2_mono) (auto dest: make_block_text)
  have 4: "concat (block_groups words) = map (sort_key w_x0) (raw_lines words)"
    unfolding g ls by (simp add: concat_split_blocks)
  have "mset (concat (map (sort_key w_x0) (raw_lines words))) = mset (concat (raw_lines words))"
    by (induction "raw_lines words") (simp_all add: mset_concat comp_def)
  then have 5: "mset (concat (concat (block_groups words))) = mset words"
    using 4 by (simp add: raw_lines_concat)
  have 6: "group_lines words = Inr (concat (block_groups words))"
    unfolding 4 by (rule group_lines_eq)
  from 1 2 3 5 6 show ?thesis by blast
qed

text \<open>Witness for C9: the drifting fragments form one line and one block.\<close>

theorem group_partitions_fragments_witness:
  "drift_words \<noteq> [] \<and>
   group_words_into_blocks drift_words 1 =
     Inr [\<lparr>b_text = ''a b c'', b_bbox = (0, 0, 25, 12), b_font_name = ''Regular'',
           b_font_size = 10, b_page_num = 1\<rparr>] \<and>
   block_groups drift_words = [[drift_words]]"
proof -
  have ne: "drift_words \<noteq> []" by (simp add: drift_words_def)
  have ev: "group_words_into_blocks drift_words 1 =
     Inr [\<lparr>b_text = ''a b c'', b_bbox = (0, 0, 25, 12), b_font_name = ''Regular'',
           b_font_size = 10, b_page_num = 1\<rparr>]"
    by code_simp
  have gr: "block_groups drift_words = [[drift_words]]"
    by code_simp
  from group_partitions_fragments [OF ne, of 1] ne ev gr show ?thesis by simp
qed

section \<open>Properties of the classifier\<close>

subsection \<open>The derivative matcher against the language of the pattern\<close>

lemma nullable_iff: "nullable r \<longleftrightarrow> [] \<in> lang r"
  by (induction r) (auto intro: star.star_empty)

lemma star_cons_split:
  assumes "x \<in> star A" "x = c # w"
  shows "\<exists>u v. w = u @ v \<and> c # u \<in> A \<and> v \<in> star A"
  using assms
proof (induction arbitrary: w rule: star.induct)
  case star_empty
  then show ?case by simp
next
  case (star_step u v)
  show ?case
  proof (cases u)
    case Nil
    with star_step show ?thesis by simp
  next
    case (Cons a u')
    with star_step.prems have "a = c" "w = u' @ v" by simp_all
    with Cons star_step.hyps show ?thesis by blast
  qed
qed

lemma seq_langI: "u \<in> lang r \<Longrightarrow> v \<in> lang s \<Longrightarrow> u @ v \<in> lang (Seq r s)"
  by auto

lemma deriv_lang: "w \<in> lang (deriv c r) \<longleftrightarrow> c # w \<in> lang r"
proof (induction r arbitrary: w)
  case (Seq r s)
  show ?case
  proof
    assume "w \<in> lang (deriv c (Seq r s))"
    then consider (a) u v where "w = u @ v" "u \<in> lang (deriv c r)" "v \<in> lang s"
      | (b) "nullable r" "w \<in> lang (deriv c s)"
      by (auto split: if_splits)
    then show "c # w \<in> lang (Seq r s)"
    proof cases
      case a
      then have "c # u \<in> lang r" using Seq.IH(1) by simp
      then have "(c # u) @ v \<in> lang (Seq r s)" using a(3) by (rule seq_langI)
      with a(1) show ?thesis by simp
    next
      case b
      then have "[] \<in> lang r" "c # w \<in> lang s"
        using Seq.IH(2) nullable_iff by simp_all
      then have "[] @ (c # w) \<in> lang (Seq r s)" by (rule seq_langI)
      then show ?thesis by simp
    qed
  next
    assume "c # w \<in> lang (Seq r s)"
    then obtain u v where uv: "c # w = u @ v" "u \<in> lang r" "v \<in> lang s" by auto
    show "w \<in> lang (deriv c (Seq r s))"
    proof (cases u)
      case Nil
      with uv have "nullable r" "w \<in> lang (deriv c s)" using Seq.IH(2) nullable_iff by simp_all
      then show ?thesis by simp
    next
      case (Cons a u')
      with uv have "w = u' @ v" "u' \<in> lang (deriv c r)" using Seq.IH(1) by simp_all
      with uv(3) show ?thesis by auto
    qed
  qed
next
  case (Star r)
  show ?case
  proof
    assume "w \<in> lang (deriv c (Star r))"
    then obtain u v where "w = u @ v" "u \<in> lang (deriv c r)" "v \<in> star (lang r)" by auto
    then have "c # w = (c # u) @ v" "c # u \<in> lang r" "v \<in> star (lang r)" using Star.IH by simp_all
    then show "c # w \<in> lang (Star r)" using star.star_step by (metis lang.simps(6))
  next
    assume "c # w \<in> lang (Star r)"
    then obtain u v where "w = u @ v" "c # u \<in> lang r" "v \<in> star (lang r)"
      using star_cons_split [of "c # w" "lang r" c w] by auto
    then show "w \<in> lang (deriv c (Star r))" using Star.IH by auto
  qed
qed auto

lemma rx_full_iff: "rx_full r s \<longleftrightarrow> s \<in> lang r"
  by (induction s arbitrary: r) (simp_all add: nullable_iff deriv_lang)

lemma re_match_iff: "re_match r s \<longleftrightarrow> (\<exists>p q. s = p @ q \<and> p \<in> lang r)"
proof (induction s arbitrary: r)
  case Nil
  then show ?case by (simp add: nullable_iff)
next
  case (Cons c cs)
  show ?case
  proof
    assume "re_match r (c # cs)"
    then consider "nullable r" | "re_match (deriv c r) cs" by auto
    then show "\<exists>p q. c # cs = p @ q \<and> p \<in> lang r"
    proof cases
      case 1
      then have "c # cs = [] @ (c # cs)" "[] \<in> lang r" by (simp_all add: nullable_iff)
      then show ?thesis by blast
    next
      case 2
      then obtain p q where "cs = p @ q" "p \<in> lang (deriv c r)" using Cons.IH by blast
      then have "c # cs = (c # p) @ q" "c # p \<in> lang r" by (simp_all add: deriv_lang)
      then show ?thesis by blast
    qed
  next
    assume "\<exists>p q. c # cs = p @ q \<and> p \<in> lang r"
    then obtain p q where pq: "c # cs = p @ q" "p \<in> lang r" by blast
    show "re_match r (c # cs)"
    proof (cases p)
      case Nil
      with pq(2) have "nullable r" by (simp add: nullable_iff)
      then show ?thesis by simp
    next
      case (Cons a p')
      with pq have "cs = p' @ q" "p' \<in> lang (deriv c r)" by (simp_all add: deriv_lang)
      then have "re_match (deriv c r) cs" using Cons.IH by blast
      then show ?thesis by simp
    qed
  qed
qed

lemma star_atoms: "list_all (in_class a) xs \<Longrightarrow> xs \<in> star (lang (Atom a))"
proof (induction xs)
  case Nil
  then show ?case by (simp add: star.star_empty)
next
  case (Cons x xs)
  then have "[x] \<in> lang (Atom a)" "xs \<in> star (lang (Atom a))" by simp_all
  then have "[x] @ xs \<in> star (lang (Atom a))" by (rule star.star_step)
  then show ?case by simp
qed

lemma plus_atoms: "xs \<noteq> [] \<Longrightarrow> list_all (in_class a) xs \<Longrightarrow> xs \<in> lang (Plus (Atom a))"
proof (cases xs)
  case Nil
  assume "xs \<noteq> []"
  with Nil show ?thesis by simp
next
  case (Cons x xs')
  assume "list_all (in_class a) xs"
  with Cons have "[x] \<in> lang (Atom a)" "xs' \<in> star (lang (Atom a))"
    using star_atoms [of a xs'] by simp_all
  then have "[x] @ xs' \<in> lang (Plus (Atom a))" unfolding Plus_def lang.simps by blast
  with Cons show ?thesis by simp
qed

lemma dotted_groups:
  "\<forall>g\<in>set gs. g \<noteq> [] \<and> list_all is_decimal g \<Longrightarrow>
   concat (map (\<lambda>g. CHR ''.'' # g) gs) \<in> lang (Star (Seq (Atom (Lit CHR ''.'')) (Plus (Atom Digit))))"
proof (induction gs)
  case Nil
  then show ?case by (simp add: star.star_empty)
next
  case (Cons g gs)
  then have "g \<in> lang (Plus (Atom Digit))"
    using plus_atoms [of g Digit] by (simp add: list_all_iff)
  then have "[CHR ''.''] @ g \<in> lang (Seq (Atom (Lit CHR ''.'')) (Plus (Atom Digit)))"
    unfolding lang.simps(5) by (intro CollectI exI conjI) (rule refl, simp_all)
  moreover have "concat (map (\<lambda>g. CHR ''.'' # g) gs) \<in> star (lang (Seq (Atom (Lit CHR ''.'')) (Plus (Atom Digit))))"
    using Cons by simp
  ultimately have "([CHR ''.''] @ g) @ concat (map (\<lambda>g. CHR ''.'' # g) gs)
      \<in> star (lang (Seq (Atom (Lit CHR ''.'')) (Plus (Atom Digit))))"
    by (rule star.star_step)
  then show ?case by simp
qed

lemma number_prefix_matches:
  assumes "ds \<noteq> []" "list_all is_decimal ds"
    and "\<forall>g\<in>set gs. g \<noteq> [] \<and> list_all is_decimal g"
    and "is_space sp"
  shows "re_match number_prefix_rx (ds @ concat (map (\<lambda>g. CHR ''.'' # g) gs) @ sp # rest)"
proof -
  have 1: "ds \<in> lang (Plus (Atom Digit))"
    using assms(1,2) plus_atoms [of ds Digit] by (simp add: list_all_iff)
  have 2: "concat (map (\<lambda>g. CHR ''.'' # g) gs) \<in> lang (Star (Seq (Atom (Lit CHR ''.'')) (Plus (Atom Digit))))"
    using assms(3) by (rule dotted_groups)
  have 3: "[sp] \<in> lang (Plus (Atom Space))"
    using assms(4) plus_atoms [of "[sp]" Space] by simp
  have "concat (map (\<lambda>g. CHR ''.'' # g) gs) @ [sp]
      \<in> lang (Seq (Star (Seq (Atom (Lit CHR ''.'')) (Plus (Atom Digit)))) (Plus (Atom Space)))"
    using 2 3 unfolding lang.simps(5) by blast
  with 1 have "ds @ concat (map (\<lambda>g. CHR ''.'' # g) gs) @ [sp] \<in> lang number_prefix_rx"
    unfolding number_prefix_rx_def lang.simps(5) by blast
  moreover have "ds @ concat (map (\<lambda>g. CHR ''.'' # g) gs) @ sp # rest
      = (ds @ concat (map (\<lambda>g. CHR ''.'' # g) gs) @ [sp]) @ rest" by simp
  ultimately show ?thesis unfolding re_match_iff by blast
qed

subsection \<open>Heading candidates\<close>

text \<open>
  Claim C2, as the specification states it, fails on its own example: the block with
  text "1. Introduction" (12 units, regular font) passes the disqualifiers and has 2
  words, but the pattern wants white space right after the digits of the prefix, so
  the dot stops the match and the block is no heading candidate.
\<close>

theorem dotted_prefix_counterexample:
  "f_text (get_block_features numbered_dot_block 595) = ''1. Introduction'' \<and>
   \<not> disqualified (get_block_features numbered_dot_block 595) \<and>
   f_word_count (get_block_features numbered_dot_block 595) = 2 \<and>
   \<not> is_potential_heading (get_block_features numbered_dot_block 595)"
  by code_simp

text \<open>
  Claim C2, amended: for every block that passes the disqualifiers, if its trimmed text
  starts with one or more decimal digits, then any number of groups of a dot and one or
  more decimal digits, then a white-space character (as "1 Introduction" or
  "1.2.3 Scope" do, and "1. Introduction" does not), and its word count is less than
  15, then it is a heading candidate.
\<close>

theorem numbered_prefix_qualifies:
  assumes "\<not> disqualified (get_block_features block page_width)"
    and "f_text (get_block_features block page_width)
           = ds @ concat (map (\<lambda>g. CHR ''.'' # g) gs) @ sp # rest"
    and "ds \<noteq> []" and "list_all is_decimal ds"
    and "\<forall>g\<in>set gs. g \<noteq> [] \<and> list_all is_decimal g"
    and "is_space sp"
    and "f_word_count (get_block_features block page_width) < 15"
  shows "is_potential_heading (get_block_features block page_width)"
proof -
  have "f_starts_with_number (get_block_features block page_width)
          = re_match number_prefix_rx (f_text (get_block_features block page_width))"
    by (simp add: get_block_features_def Let_def)
  then have "f_starts_with_number (get_block_features block page_width)"
    using assms(2) number_prefix_matches [OF assms(3-6)] by simp
  with assms(1,7) show ?thesis by (simp add: is_potential_heading_def)
qed

text \<open>Witness for C2: the block "1.2 Scope" (12 units, regular font).\<close>

theorem numbered_prefix_qualifies_witness:
  "\<not> disqualified (get_block_features numbered_block 595) \<and>
   f_text (get_block_features numbered_block 595) = ''1.2 Scope'' \<and>
   f_word_count (get_block_features numbered_block 595) < 15 \<and>
   is_potential_heading (get_block_features numbered_block 595)"
proof -
  have a: "\<not> disqualified (get_block_features numbered_block 595)" by code_simp
  have b: "f_text (get_block_features numbered_block 595)
             = ''1'' @ concat (map (\<lambda>g. CHR ''.'' # g) [''2'']) @ CHR '' '' # ''Scope''"
    by code_simp
  have c: "''1'' \<noteq> []" by simp
  have d: "list_all is_decimal ''1''" by code_simp
  have e: "\<forall>g\<in>set [''2'']. g \<noteq> [] \<and> list_all is_decimal g" by code_simp
  have f: "is_space CHR '' ''" by code_simp
  have g: "f_word_count (get_block_features numbered_block 595) < 15" by code_simp
  from numbered_prefix_qualifies [OF a b c d e f g] a b g show ?thesis by simp
qed

subsection \<open>build on no pages and on a single candidate\<close>

text \<open>
  Claim C4: on the empty page list build returns the sentinel result, whatever the
  clustering.
\<close>

theorem build_no_pages:
  "build km [] = Inr \<lparr>r_title = ''No Content Found'', r_outline = []\<rparr>"
  by (simp add: build_def)

text \<open>With exactly one heading candidate left, the sort of build raises.\<close>

lemma single_candidate_raises:
  assumes "pages \<noteq> []" "heading_candidates_of pages = [h]"
  shows "build km pages = Inl KeyError"
  using assms unfolding build_def Let_def
  by (simp add: assign_heading_levels_def sort_outline_def entry_key_def)

text \<open>
  Claim C7 fails on the code: a page whose only fragment is a 16 unit heading at top
  500 is grouped into one block; the block is no title candidate (its top exceeds
  400) and is the only heading candidate; the single-candidate branch of the level
  assignment returns an entry without \<^verbatim>\<open>y_pos\<close>, and the key function of the sort in
  build raises KeyError on it.
\<close>

theorem build_single_candidate_raises:
  "group_words_into_blocks [heading_word] 1 = Inr (p_text_blocks (hd single_pages)) \<and>
   heading_candidates_of single_pages
     = [get_block_features (example_block ''Heading'' 500 16 ''Regular'') 595] \<and>
   build km single_pages = Inl KeyError"
proof -
  have 1: "group_words_into_blocks [heading_word] 1 = Inr (p_text_blocks (hd single_pages))"
    by code_simp
  have 2: "heading_candidates_of single_pages
     = [get_block_features (example_block ''Heading'' 500 16 ''Regular'') 595]"
    by code_simp
  have "single_pages \<noteq> []" by (simp add: single_pages_def)
  then have 3: "build km single_pages = Inl KeyError"
    using 2 by (rule single_candidate_raises)
  from 1 2 3 show ?thesis by simp
qed

section \<open>Properties of build\<close>

subsection \<open>What build returns when it returns\<close>

lemma level_loop_entries:
  "level_loop m k centers labels i fs acc = Inr out \<Longrightarrow>
   \<exists>es. out = acc @ es \<and> list_all2 from_candidate fs es"
proof (induction fs arbitrary: i acc)
  case Nil
  then show ?case by simp
next
  case (Cons f fs)
  let ?e = "\<lparr>e_level = (case m (centers ! (labels ! i)) of None \<Rightarrow> H k | Some l \<Rightarrow> l),
             e_text = f_text f, e_page = b_page_num (f_original_block f),
             e_y_pos = Some (bbox_top (f_original_block f))\<rparr>"
  from Cons.prems have "level_loop m k centers labels (i + 1) fs (acc @ [?e]) = Inr out"
    by (simp add: Let_def split: if_splits)
  from Cons.IH [OF this] obtain es where "out = (acc @ [?e]) @ es" "list_all2 from_candidate fs es"
    by blast
  then have "out = acc @ (?e # es)" "list_all2 from_candidate (f # fs) (?e # es)"
    by (simp_all add: from_candidate_def)
  then show ?case by blast
qed

lemma assign_many:
  assumes "hs \<noteq> []" "length hs \<noteq> 1"
    and "km (min (length (remdups (map f_font_size hs))) 3) (map f_font_size hs) = (centers, labels)"
  shows "assign_heading_levels km hs =
           level_loop (size_to_level_from 0 (rev (sort centers)) Map.empty)
             (min (length (remdups (map f_font_size hs))) 3) centers labels 0 hs []"
proof -
  from assms(1) have n0: "\<not> min (length (sort (remdups (map f_font_size hs)))) 3 = 0" by simp
  show ?thesis
    unfolding assign_heading_levels_def Let_def if_not_P [OF assms(1)] if_not_P [OF assms(2)]
      if_not_P [OF n0]
    using assms(3) by simp
qed

lemma assign_entries:
  assumes "assign_heading_levels km hs = Inr out" "length hs \<noteq> 1"
  shows "list_all2 from_candidate hs out"
proof (cases "hs = []")
  case True
  with assms show ?thesis by (simp add: assign_heading_levels_def)
next
  case False
  obtain centers labels
    where km: "km (min (length (remdups (map f_font_size hs))) 3) (map f_font_size hs) = (centers, labels)"
    by (cases "km (min (length (remdups (map f_font_size hs))) 3) (map f_font_size hs)")
  from assms(1) have
    "level_loop (size_to_level_from 0 (rev (sort centers)) Map.empty)
       (min (length (remdups (map f_font_size hs))) 3) centers labels 0 hs [] = Inr out"
    unfolding assign_many [of hs km centers labels, OF False assms(2) km] .
  from level_loop_entries [OF this] show ?thesis by simp
qed

lemma assign_single:
  "length hs = 1 \<Longrightarrow> assign_heading_levels km hs = Inr out \<Longrightarrow> \<exists>e\<in>set out. e_y_pos e = None"
  by (cases hs) (auto simp: assign_heading_levels_def Let_def)

lemma sort_outline_Inr:
  "sort_outline outline = Inr s \<Longrightarrow>
   s = sort_key key_or_zero outline \<and> (\<forall>e\<in>set outline. e_y_pos e \<noteq> None)"
  by (auto simp: sort_outline_def list_ex_iff entry_key_def split: if_splits option.splits)

lemma del_y_pos_Inr: "del_y_pos xs = Inr ys \<Longrightarrow> ys = map (\<lambda>e. e\<lparr>e_y_pos := None\<rparr>) xs"
  by (induction xs arbitrary: ys) (auto split: option.splits sum.splits)

lemma build_Inr:
  assumes "build km pages = Inr r" "pages \<noteq> []"
  shows "\<exists>out. assign_heading_levels km (heading_candidates_of pages) = Inr out \<and>
           list_all2 from_candidate (heading_candidates_of pages) out \<and>
           r_outline r = map (\<lambda>e. e\<lparr>e_y_pos := None\<rparr>) (sort_key key_or_zero out) \<and>
           r_title r = py_strip (replace_newlines
                         (extract_title (core_content_blocks pages) (page_width_of pages)))"
proof -
  from assms obtain out where out: "assign_heading_levels km (heading_candidates_of pages) = Inr out"
    by (auto simp: build_def Let_def split: sum.splits)
  with assms obtain s where s: "sort_outline out = Inr s"
    by (auto simp: build_def Let_def split: sum.splits)
  with assms out obtain d where d: "del_y_pos s = Inr d"
    by (auto simp: build_def Let_def split: sum.splits)
  from assms out s d have r: "r = \<lparr>r_title = py_strip (replace_newlines
       (extract_title (core_content_blocks pages) (page_width_of pages))), r_outline = d\<rparr>"
    by (simp add: build_def Let_def)
  from sort_outline_Inr [OF s] have s': "s = sort_key key_or_zero out"
    and y: "\<forall>e\<in>set out. e_y_pos e \<noteq> None" by simp_all
  from y assign_single [OF _ out] have "length (heading_candidates_of pages) \<noteq> 1" by blast
  from assign_entries [OF out this] have "list_all2 from_candidate (heading_candidates_of pages) out" .
  with out r s' del_y_pos_Inr [OF d] show ?thesis by simp
qed

lemma heading_candidates_empty: "heading_candidates_of [] = []"
  by (simp add: heading_candidates_of_def core_content_blocks_def)

lemma build_outline:
  assumes "build km pages = Inr r"
  shows "\<exists>out. list_all2 from_candidate (heading_candidates_of pages) out \<and>
           r_outline r = map (\<lambda>e. e\<lparr>e_y_pos := None\<rparr>) (sort_key key_or_zero out)"
proof (cases "pages = []")
  case True
  with assms have "r_outline r = []" by (auto simp: build_def)
  then have "list_all2 from_candidate (heading_candidates_of pages) [] \<and>
           r_outline r = map (\<lambda>e. e\<lparr>e_y_pos := None\<rparr>) (sort_key key_or_zero [])"
    using True by (simp add: heading_candidates_empty)
  then show ?thesis by blast
next
  case False
  from build_Inr [OF assms False] show ?thesis by blast
qed

lemma key_of_candidate:
  "from_candidate h e \<Longrightarrow> key_or_zero e = (b_page_num (f_original_block h), bbox_top (f_original_block h))"
  by (simp add: from_candidate_def key_or_zero_def entry_key_def)

lemma candidate_props:
  assumes "h \<in> set (heading_candidates_of pages)"
  shows "f_text h \<noteq> [] \<and> length (py_split (f_text h)) < 15 \<and>
         f_text h \<noteq> extract_title (core_content_blocks pages) (page_width_of pages)"
proof -
  from assms obtain b where h: "h = get_block_features b (page_width_of pages)"
    and p: "is_potential_heading h"
    and t: "f_text h \<noteq> extract_title (core_content_blocks pages) (page_width_of pages)"
    by (auto simp: heading_candidates_of_def Let_def)
  from h have wc: "f_word_count h = length (py_split (f_text h))"
    by (simp add: get_block_features_def Let_def)
  from p have "f_text h \<noteq> []" "f_word_count h < 15"
    by (auto simp: is_potential_heading_def disqualified_def split: if_splits)
  with wc t show ?thesis by simp
qed


lemma list_all2_right_set:
  "list_all2 P xs ys \<Longrightarrow> y \<in> set ys \<Longrightarrow> \<exists>x\<in>set xs. P x y"
  by (induction rule: list_all2_induct) auto

lemma dropWhile_hd: "dropWhile P xs \<noteq> [] \<Longrightarrow> \<not> P (hd (dropWhile P xs))"
  using hd_dropWhile by blast

lemma last_dropWhile: "dropWhile P xs \<noteq> [] \<Longrightarrow> last (dropWhile P xs) = last xs"
  by (induction xs) (auto split: if_splits)

lemma stripped_py_strip: "stripped (py_strip s)"
proof (cases "py_strip s = []")
  case True
  then show ?thesis by (simp add: stripped_def)
next
  case False
  let ?u = "dropWhile is_space s"
  let ?v = "dropWhile is_space (rev ?u)"
  from False have v: "?v \<noteq> []" by (simp add: py_strip_def)
  then have u: "?u \<noteq> []" by (metis dropWhile.simps(1) rev.simps(1))
  have "last (py_strip s) = hd ?v" using v by (simp add: py_strip_def last_rev)
  then have 1: "\<not> is_space (last (py_strip s))" using dropWhile_hd [OF v] by simp
  have "hd (py_strip s) = last ?v" using v by (simp add: py_strip_def hd_rev)
  also have "\<dots> = last (rev ?u)" using v by (rule last_dropWhile)
  also have "\<dots> = hd ?u" using u by (simp add: last_rev)
  finally have 2: "\<not> is_space (hd (py_strip s))" using dropWhile_hd [OF u] by simp
  from 1 2 show ?thesis by (simp add: stripped_def)
qed

lemma py_strip_stripped: "stripped s \<Longrightarrow> py_strip s = s"
proof (cases "s = []")
  case True
  then show ?thesis by (simp add: py_strip_def)
next
  case False
  assume "stripped s"
  with False have h: "\<not> is_space (hd s)" and l: "\<not> is_space (last s)"
    by (simp_all add: stripped_def)
  from h False have 1: "dropWhile is_space s = s" by (cases s) simp_all
  from False obtain y ys where r: "rev s = y # ys" by (cases "rev s") auto
  from False have "hd (rev s) = last s" by (simp add: hd_rev)
  with r l have "\<not> is_space y" by simp
  then have "dropWhile is_space (y # ys) = y # ys" by simp
  then have 2: "dropWhile is_space (rev s) = rev s" unfolding r .
  show ?thesis unfolding py_strip_def 1 2 by simp
qed



lemma replace_newlines_id: "newline \<notin> set s \<Longrightarrow> replace_newlines s = s"
  by (induction s) (auto simp: replace_newlines_def)

lemma title_loop_candidates:
  "\<forall>c\<in>set cands. stripped (snd c) \<Longrightarrow> \<forall>c\<in>set (title_loop bs pw cands). stripped (snd c)"
proof (induction bs arbitrary: cands)
  case Nil
  then show ?case by simp
next
  case (Cons b bs)
  let ?f = "get_block_features b pw"
  let ?score = "if f_is_bold ?f
                then (if f_is_centered ?f then f_font_size ?f * 1.5 else f_font_size ?f) * 1.2
                else (if f_is_centered ?f then f_font_size ?f * 1.5 else f_font_size ?f)"
  have st: "stripped (f_text ?f)"
    by (simp add: get_block_features_def Let_def stripped_py_strip)
  show ?case
  proof (cases "bbox_top b > 400 \<or> f_text ?f = [] \<or> f_word_count ?f > 25")
    case True
    then have "title_loop (b # bs) pw cands = title_loop bs pw cands"
      by (auto simp: Let_def)
    with Cons.IH [OF Cons.prems] show ?thesis by simp
  next
    case False
    then have eq: "title_loop (b # bs) pw cands = title_loop bs pw (cands @ [(?score, f_text ?f)])"
      by (simp add: Let_def)
    have "\<forall>c\<in>set (cands @ [(?score, f_text ?f)]). stripped (snd c)"
      using Cons.prems st by simp
    from Cons.IH [OF this] show ?thesis unfolding eq .
  qed
qed

lemma py_max_key_in: "py_max_key c cs \<in> set (c # cs)"
  by (induction cs arbitrary: c) (auto split: if_splits)

lemma stripped_extract_title: "stripped (extract_title bs pw)"
proof -
  have u: "stripped ''Untitled Document''" by (simp add: stripped_def is_space_def)
  let ?fp = "filter (\<lambda>b. b_page_num b = 1 \<and> py_strip (b_text b) \<noteq> []) bs"
  show ?thesis
  proof (cases "title_loop ?fp pw []")
    case Nil
    with u show ?thesis by (simp add: extract_title_def Let_def)
  next
    case (Cons c cs)
    have "\<forall>c\<in>set (title_loop ?fp pw []). stripped (snd c)"
      by (rule title_loop_candidates) simp
    with Cons py_max_key_in [of c cs] have "stripped (snd (py_max_key c cs))" by auto
    with Cons u show ?thesis by (simp add: extract_title_def Let_def)
  qed
qed





lemma report_build: "build distinct_values_fit report_pages = Inr report_result"
  by code_simp

subsection \<open>Order of the outline\<close>

text \<open>
  Claim C5: whenever build returns a result, its outline is, with the sort key removed,
  a list of entries that is sorted by (page number, top of the block); each of these
  entries was made from a heading candidate and carries the text and the page number of
  the candidate's block and, as its sort key, the top of that block; and no returned
  entry has the key \<^verbatim>\<open>y_pos\<close>.
\<close>

theorem outline_sorted:
  assumes "build km pages = Inr r"
  shows "\<exists>es. r_outline r = map (\<lambda>e. e\<lparr>e_y_pos := None\<rparr>) es \<and>
              sorted (map (\<lambda>e. (e_page e, the (e_y_pos e))) es) \<and>
              (\<forall>e\<in>set es. \<exists>h\<in>set (heading_candidates_of pages).
                 e_text e = f_text h \<and> e_page e = b_page_num (f_original_block h) \<and>
                 e_y_pos e = Some (bbox_top (f_original_block h))) \<and>
              (\<forall>e\<in>set (r_outline r). e_y_pos e = None)"
proof -
  from build_outline [OF assms] obtain out
    where c: "list_all2 from_candidate (heading_candidates_of pages) out"
      and o: "r_outline r = map (\<lambda>e. e\<lparr>e_y_pos := None\<rparr>) (sort_key key_or_zero out)"
    by blast
  let ?es = "sort_key key_or_zero out"
  have h: "\<exists>h\<in>set (heading_candidates_of pages). from_candidate h e" if "e \<in> set ?es" for e
    using that list_all2_right_set [OF c, of e] by simp
  have k: "(e_page e, the (e_y_pos e)) = key_or_zero e" if "e \<in> set ?es" for e
    using h [OF that] by (auto simp: from_candidate_def key_or_zero_def entry_key_def)
  have "map (\<lambda>e. (e_page e, the (e_y_pos e))) ?es = map key_or_zero ?es"
    using k by (intro map_cong) simp_all
  then have 1: "sorted (map (\<lambda>e. (e_page e, the (e_y_pos e))) ?es)"
    by (simp only: sorted_sort_key)
  have 2: "\<forall>e\<in>set ?es. \<exists>h\<in>set (heading_candidates_of pages).
                 e_text e = f_text h \<and> e_page e = b_page_num (f_original_block h) \<and>
                 e_y_pos e = Some (bbox_top (f_original_block h))"
    using h by (simp add: from_candidate_def)
  have 3: "\<forall>e\<in>set (r_outline r). e_y_pos e = None" using o by auto
  from o 1 2 3 show ?thesis by blast
qed

text \<open>Witness for C5: on the report page the heading at top 200 comes before the one at
  top 300, against the order of the blocks.\<close>

theorem outline_sorted_witness:
  "build distinct_values_fit report_pages = Inr report_result \<and>
   (\<exists>es. r_outline report_result = map (\<lambda>e. e\<lparr>e_y_pos := None\<rparr>) es \<and>
         sorted (map (\<lambda>e. (e_page e, the (e_y_pos e))) es)) \<and>
   map e_text (r_outline report_result) = [''Overview'', ''Methods'']"
proof -
  have "map e_text (r_outline report_result) = [''Overview'', ''Methods'']"
    by (simp add: report_result_def)
  with outline_sorted [OF report_build] report_build show ?thesis by blast
qed

subsection \<open>The title and the outline\<close>

text \<open>
  Claim C6, as the specification states it, fails: the candidate filter compares with the
  extracted title, the result carries the title with its line breaks replaced by spaces.
  A title block "A", line break, "B" gives the title "A B", and the block "A B" below it
  stays in the outline.
\<close>

theorem title_equal_entry_counterexample:
  "build distinct_values_fit newline_pages = Inr newline_result \<and>
   e_text (r_outline newline_result ! 0) = r_title newline_result"
proof -
  have "build distinct_values_fit newline_pages = Inr newline_result" by code_simp
  then show ?thesis by (simp add: newline_result_def)
qed

text \<open>
  Claim C6, amended: whenever build returns a result, no outline entry has a text equal
  to the title as extracted, before its line breaks are replaced (every heading
  candidate with that text is removed before level assignment); and when the extracted
  title has no line break, no outline entry has a text equal to the returned title.
\<close>

theorem title_absent_from_outline:
  assumes "build km pages = Inr r"
  shows "(\<forall>e\<in>set (r_outline r).
            e_text e \<noteq> extract_title (core_content_blocks pages) (page_width_of pages)) \<and>
         (newline \<notin> set (extract_title (core_content_blocks pages) (page_width_of pages)) \<longrightarrow>
          (\<forall>e\<in>set (r_outline r). e_text e \<noteq> r_title r))"
proof -
  let ?t = "extract_title (core_content_blocks pages) (page_width_of pages)"
  have 1: "\<forall>e\<in>set (r_outline r). e_text e \<noteq> ?t"
  proof
    fix e assume e: "e \<in> set (r_outline r)"
    from build_outline [OF assms] obtain out
      where c: "list_all2 from_candidate (heading_candidates_of pages) out"
        and o: "r_outline r = map (\<lambda>e. e\<lparr>e_y_pos := None\<rparr>) (sort_key key_or_zero out)"
      by blast
    from e o obtain e' where e': "e' \<in> set out" "e_text e = e_text e'" by auto
    from list_all2_right_set [OF c e'(1)] obtain h
      where "h \<in> set (heading_candidates_of pages)" "e_text e' = f_text h"
      by (auto simp: from_candidate_def)
    with candidate_props [of h pages] e'(2) show "e_text e \<noteq> ?t" by simp
  qed
  have 2: "r_title r = ?t" if "pages \<noteq> []" "newline \<notin> set ?t"
  proof -
    from build_Inr [OF assms that(1)] have "r_title r = py_strip (replace_newlines ?t)" by blast
    also have "\<dots> = py_strip ?t" using that(2) by (simp add: replace_newlines_id)
    also have "\<dots> = ?t" using stripped_extract_title by (rule py_strip_stripped)
    finally show ?thesis .
  qed
  have 3: "\<forall>e\<in>set (r_outline r). e_text e \<noteq> r_title r" if n: "newline \<notin> set ?t"
  proof (cases "pages = []")
    case True
    with assms have "r_outline r = []" by (auto simp: build_def)
    then show ?thesis by simp
  next
    case False
    from 2 [OF False n] 1 show ?thesis by simp
  qed
  from 1 3 show ?thesis by simp
qed

text \<open>Witness for C6: the report page, whose title "Report" has no line break.\<close>

theorem title_absent_from_outline_witness:
  "build distinct_values_fit report_pages = Inr report_result \<and> report_pages \<noteq> [] \<and>
   extract_title (core_content_blocks report_pages) (page_width_of report_pages) = ''Report'' \<and>
   newline \<notin> set ''Report'' \<and> r_title report_result = ''Report'' \<and>
   ''Overview'' \<noteq> ''Report'' \<and> ''Methods'' \<noteq> ''Report''"
proof -
  have 1: "extract_title (core_content_blocks report_pages) (page_width_of report_pages) = ''Report''"
    by code_simp
  have 2: "newline \<notin> set ''Report''" by code_simp
  have 3: "report_pages \<noteq> []" by (simp add: report_pages_def)
  from title_absent_from_outline [OF report_build] 1 2 3 report_build
  show ?thesis by (simp add: report_result_def)
qed

subsection \<open>Length of the outline entries\<close>

text \<open>
  Claim C10: whenever build returns a result, every outline entry has a non-empty text of
  fewer than 15 words.
\<close>

theorem outline_entries_short:
  assumes "build km pages = Inr r"
  shows "\<forall>e\<in>set (r_outline r). e_text e \<noteq> [] \<and> length (py_split (e_text e)) < 15"
proof
  fix e assume e: "e \<in> set (r_outline r)"
  from build_outline [OF assms] obtain out
    where c: "list_all2 from_candidate (heading_candidates_of pages) out"
      and o: "r_outline r = map (\<lambda>e. e\<lparr>e_y_pos := None\<rparr>) (sort_key key_or_zero out)"
    by blast
  from e o obtain e' where e': "e' \<in> set out" "e_text e = e_text e'" by auto
  from list_all2_right_set [OF c e'(1)] obtain h
    where "h \<in> set (heading_candidates_of pages)" "e_text e' = f_text h"
    by (auto simp: from_candidate_def)
  with candidate_props [of h pages] e'(2) show "e_text e \<noteq> [] \<and> length (py_split (e_text e)) < 15"
    by simp
qed

text \<open>Witness for C10: the two entries of the report page.\<close>

theorem outline_entries_short_witness:
  "build distinct_values_fit report_pages = Inr report_result \<and>
   length (py_split ''Overview'') < 15 \<and> length (py_split ''Methods'') < 15"
  using outline_entries_short [OF report_build] report_build
  by (simp add: report_result_def)

subsection \<open>Title extraction\<close>



section \<open>Level assignment\<close>

lemma level_loop_levels:
  assumes "i + length fs \<le> length labels" "\<forall>l\<in>set labels. l < length centers"
  shows "\<exists>es. level_loop m k centers labels i fs acc = Inr (acc @ es) \<and> length es = length fs \<and>
              (\<forall>n<length fs. es ! n = entry_at m k centers labels (i + n) (fs ! n))"
  using assms(1)
proof (induction fs arbitrary: i acc)
  case Nil
  then show ?case by simp
next
  case (Cons f fs)
  from Cons.prems have i: "i < length labels" by simp
  with assms(2) have l: "labels ! i < length centers" by simp
  from Cons.prems have "(i + 1) + length fs \<le> length labels" by simp
  from Cons.IH [OF this, of "acc @ [entry_at m k centers labels i f]"] obtain es where
    es: "level_loop m k centers labels (i + 1) fs (acc @ [entry_at m k centers labels i f])
           = Inr ((acc @ [entry_at m k centers labels i f]) @ es)"
        "length es = length fs"
        "\<forall>n<length fs. es ! n = entry_at m k centers labels (i + 1 + n) (fs ! n)"
    by blast
  have 1: "level_loop m k centers labels i (f # fs) acc
             = Inr (acc @ (entry_at m k centers labels i f # es))"
    using i l es(1) by (simp add: Let_def entry_at_def)
  have 2: "length (entry_at m k centers labels i f # es) = length (f # fs)" using es(2) by simp
  have 3: "\<forall>n<length (f # fs). (entry_at m k centers labels i f # es) ! n
             = entry_at m k centers labels (i + n) ((f # fs) ! n)"
  proof (intro allI impI)
    fix n assume "n < length (f # fs)"
    then show "(entry_at m k centers labels i f # es) ! n
             = entry_at m k centers labels (i + n) ((f # fs) ! n)"
      using es(3) by (cases n) simp_all
  qed
  from 1 2 3 show ?case by blast
qed

lemma size_to_level_absent: "x \<notin> set cs \<Longrightarrow> size_to_level_from i cs m x = m x"
  by (induction cs arbitrary: i m) simp_all

lemma size_to_level_lookup:
  "x \<in> set cs \<Longrightarrow> \<exists>j<length cs. cs ! j = x \<and> size_to_level_from i cs m x = Some (H (i + j + 1))"
proof (induction cs arbitrary: i m)
  case Nil
  then show ?case by simp
next
  case (Cons c cs)
  show ?case
  proof (cases "x \<in> set cs")
    case True
    from Cons.IH [OF True, of "i + 1" "m(c \<mapsto> H (i + 1))"] obtain j where
      "j < length cs" "cs ! j = x"
      "size_to_level_from (i + 1) cs (m(c \<mapsto> H (i + 1))) x = Some (H (i + 1 + j + 1))" by blast
    then have "Suc j < length (c # cs) \<and> (c # cs) ! Suc j = x \<and>
      size_to_level_from i (c # cs) m x = Some (H (i + Suc j + 1))" by simp
    then show ?thesis by blast
  next
    case False
    with Cons.prems have "x = c" by simp
    with False have "0 < length (c # cs) \<and> (c # cs) ! 0 = x \<and>
      size_to_level_from i (c # cs) m x = Some (H (i + 0 + 1))"
      by (simp add: size_to_level_absent)
    then show ?thesis by blast
  qed
qed

lemma fit_three:
  assumes "kmeans_fit_ok 3 [x, y, z] (centers, labels)"
  shows "\<exists>a b c c0 c1 c2. labels = [a, b, c] \<and> centers = [c0, c1, c2] \<and>
           a < 3 \<and> b < 3 \<and> c < 3 \<and> a \<noteq> b \<and> a \<noteq> c \<and> b \<noteq> c \<and>
           [c0, c1, c2] ! a = x \<and> [c0, c1, c2] ! b = y \<and> [c0, c1, c2] ! c = z"
proof -
  have u: "[0..<3] = [0, 1, 2]" by (simp add: upt_rec)
  from assms obtain a b c where l: "labels = [a, b, c]"
    by (auto simp: kmeans_fit_ok_def length_Suc_conv numeral_3_eq_3)
  from assms obtain c0 c1 c2 where c: "centers = [c0, c1, c2]"
    by (auto simp: kmeans_fit_ok_def length_Suc_conv numeral_3_eq_3)
  from assms l have "a < 3" "b < 3" "c < 3" by (simp_all add: kmeans_fit_ok_def)
  then have a: "a = 0 \<or> a = 1 \<or> a = 2" and b: "b = 0 \<or> b = 1 \<or> b = 2"
    and cc: "c = 0 \<or> c = 1 \<or> c = 2" by arith+
  from assms have f: "list_all (\<lambda>j. cluster_members [x, y, z] [a, b, c] j \<noteq> [] \<and>
                      [c0, c1, c2] ! j = sum_list (cluster_members [x, y, z] [a, b, c] j)
                                      / real (length (cluster_members [x, y, z] [a, b, c] j)))
          [0, 1, 2]"
    unfolding kmeans_fit_ok_def l c u by simp
  from a b cc f have "a \<noteq> b \<and> a \<noteq> c \<and> b \<noteq> c \<and>
           [c0, c1, c2] ! a = x \<and> [c0, c1, c2] ! b = y \<and> [c0, c1, c2] ! c = z"
    by (elim disjE) (simp_all add: cluster_members_def)
  with l c \<open>a < 3\<close> \<open>b < 3\<close> \<open>c < 3\<close> show ?thesis by blast
qed

lemma scenario_levels:
  assumes "map f_font_size hs = [18, 14, 10]"
    and "kmeans_fit_ok 3 [18, 14, 10] (km 3 [18, 14, 10])"
  shows "\<exists>outline. assign_heading_levels km hs = Inr outline \<and>
           map e_level outline = [H 1, H 2, H 3]"
proof -
  obtain centers labels where km: "km 3 [18, 14, 10] = (centers, labels)"
    by (cases "km 3 [18, 14, 10]")
  from assms(1) obtain h1 h2 h3 where hs: "hs = [h1, h2, h3]"
    by (auto simp: map_eq_Cons_conv)
  from fit_three [of 18 14 10 centers labels] assms(2) km obtain a b c c0 c1 c2 where
    f: "labels = [a, b, c]" "centers = [c0, c1, c2]" "a < 3" "b < 3" "c < 3"
       "a \<noteq> b" "a \<noteq> c" "b \<noteq> c"
       "[c0, c1, c2] ! a = 18" "[c0, c1, c2] ! b = 14" "[c0, c1, c2] ! c = 10"
    by auto
  have ne: "hs \<noteq> []" "length hs \<noteq> 1" using hs by simp_all
  have k: "min (length (remdups [18, 14, 10 :: real])) 3 = 3" by simp
  have km': "km (min (length (remdups (map f_font_size hs))) 3) (map f_font_size hs)
               = (centers, labels)"
    unfolding k assms(1) by (rule km)
  have s: "rev (sort centers) = [18, 14, 10]"
  proof -
    from f(3-5) have "a = 0 \<or> a = 1 \<or> a = 2" "b = 0 \<or> b = 1 \<or> b = 2" "c = 0 \<or> c = 1 \<or> c = 2"
      by arith+
    with f(6-11) show ?thesis unfolding f(2) by (elim disjE) simp_all
  qed
  have lv: "size_to_level_from 0 [18, 14, 10] Map.empty = [18 \<mapsto> H 1, 14 \<mapsto> H 2, 10 \<mapsto> H 3]"
    by (simp add: numeral_2_eq_2 numeral_3_eq_3)
  have "assign_heading_levels km hs =
          level_loop [18 \<mapsto> H 1, 14 \<mapsto> H 2, 10 \<mapsto> H 3] 3 [c0, c1, c2] [a, b, c] 0 [h1, h2, h3] []"
    unfolding assign_many [of hs km centers labels, OF ne km'] assms(1) k s lv
    unfolding f(1,2) hs ..
  also have "\<dots> = Inr [entry_at [18 \<mapsto> H 1, 14 \<mapsto> H 2, 10 \<mapsto> H 3] 3 [c0, c1, c2] [a, b, c] 0 h1,
                       entry_at [18 \<mapsto> H 1, 14 \<mapsto> H 2, 10 \<mapsto> H 3] 3 [c0, c1, c2] [a, b, c] 1 h2,
                       entry_at [18 \<mapsto> H 1, 14 \<mapsto> H 2, 10 \<mapsto> H 3] 3 [c0, c1, c2] [a, b, c] 2 h3]"
    using f(3-5) by (simp add: Let_def entry_at_def)
  finally have 1: "assign_heading_levels km hs =
     Inr [entry_at [18 \<mapsto> H 1, 14 \<mapsto> H 2, 10 \<mapsto> H 3] 3 [c0, c1, c2] [a, b, c] 0 h1,
          entry_at [18 \<mapsto> H 1, 14 \<mapsto> H 2, 10 \<mapsto> H 3] 3 [c0, c1, c2] [a, b, c] 1 h2,
          entry_at [18 \<mapsto> H 1, 14 \<mapsto> H 2, 10 \<mapsto> H 3] 3 [c0, c1, c2] [a, b, c] 2 h3]" .
  have 2: "map e_level
     [entry_at [18 \<mapsto> H 1, 14 \<mapsto> H 2, 10 \<mapsto> H 3] 3 [c0, c1, c2] [a, b, c] 0 h1,
      entry_at [18 \<mapsto> H 1, 14 \<mapsto> H 2, 10 \<mapsto> H 3] 3 [c0, c1, c2] [a, b, c] 1 h2,
      entry_at [18 \<mapsto> H 1, 14 \<mapsto> H 2, 10 \<mapsto> H 3] 3 [c0, c1, c2] [a, b, c] 2 h3]
     = [H 1, H 2, H 3]"
    using f(9-11) by (simp add: entry_at_def)
  show ?thesis by (rule exI, rule conjI, rule 1, rule 2)
qed

text \<open>
  Claim C3, on \<open>_assign_heading_levels\<close> with the clustering as a parameter: no
  candidates give the empty outline; one candidate gives one entry of level H1. For two
  or more candidates the clustering is asked for k = min (number of distinct font sizes)
  3 centers over the font sizes; if it returns k centers and a label below k for every
  candidate, then every candidate gets an entry with its text, the entry's level is
  H(j+1) for a position j at which the candidate's cluster center stands among the
  centers sorted descending, and the level is one of H1, H2, H3. For font sizes 18, 14,
  10 and a fit of three non-empty clusters with their means as centers, the levels are
  H1, H2, H3 in this order.
\<close>

theorem level_assignment:
  "assign_heading_levels km [] = Inr [] \<and>
   assign_heading_levels km [h] =
     Inr [\<lparr>e_level = H 1, e_text = f_text h, e_page = b_page_num (f_original_block h),
           e_y_pos = None\<rparr>] \<and>
   (2 \<le> length hs \<longrightarrow>
    km (min (card (set (map f_font_size hs))) 3) (map f_font_size hs) = (centers, labels) \<longrightarrow>
    length centers = min (card (set (map f_font_size hs))) 3 \<longrightarrow>
    length labels = length hs \<longrightarrow>
    (\<forall>l\<in>set labels. l < length centers) \<longrightarrow>
    (\<exists>outline. assign_heading_levels km hs = Inr outline \<and> length outline = length hs \<and>
       (\<forall>i<length hs.
          e_text (outline ! i) = f_text (hs ! i) \<and>
          e_level (outline ! i) \<in> {H 1, H 2, H 3} \<and>
          (\<exists>j<length centers. rev (sort centers) ! j = centers ! (labels ! i) \<and>
                               e_level (outline ! i) = H (j + 1))))) \<and>
   (map f_font_size ts = [18, 14, 10] \<longrightarrow>
    kmeans_fit_ok 3 [18, 14, 10] (km 3 [18, 14, 10]) \<longrightarrow>
    (\<exists>outline. assign_heading_levels km ts = Inr outline \<and>
       map e_level outline = [H 1, H 2, H 3]))"
proof (intro conjI impI)
  show "assign_heading_levels km [] = Inr []"
    by (simp add: assign_heading_levels_def)
  show "assign_heading_levels km [h] =
     Inr [\<lparr>e_level = H 1, e_text = f_text h, e_page = b_page_num (f_original_block h),
           e_y_pos = None\<rparr>]"
    by (simp add: assign_heading_levels_def)
next
  assume a: "map f_font_size ts = [18, 14, 10]"
    "kmeans_fit_ok 3 [18, 14, 10] (km 3 [18, 14, 10])"
  then show "\<exists>outline. assign_heading_levels km ts = Inr outline \<and>
       map e_level outline = [H 1, H 2, H 3]"
    by (rule scenario_levels)
next
  let ?k = "min (card (set (map f_font_size hs))) 3"
  let ?m = "size_to_level_from 0 (rev (sort centers)) Map.empty"
  assume a: "2 \<le> length hs" "km ?k (map f_font_size hs) = (centers, labels)"
    "length centers = ?k" "length labels = length hs" "\<forall>l\<in>set labels. l < length centers"
  have k: "?k = min (length (remdups (map f_font_size hs))) 3" by (simp only: card_set)
  from a(1) have ne: "hs \<noteq> []" "length hs \<noteq> 1" by auto
  from a(2) have km: "km (min (length (remdups (map f_font_size hs))) 3) (map f_font_size hs)
      = (centers, labels)" unfolding k .
  from a(4) have "0 + length hs \<le> length labels" by simp
  from level_loop_levels [OF this a(5), of ?m ?k "[]"] obtain es where
    es: "level_loop ?m ?k centers labels 0 hs [] = Inr es" "length es = length hs"
        "\<forall>n<length hs. es ! n = entry_at ?m ?k centers labels n (hs ! n)"
    by auto
  have 1: "assign_heading_levels km hs = Inr es"
    unfolding assign_many [of hs km centers labels, OF ne km] using es(1) unfolding k .
  have 3: "e_text (es ! i) = f_text (hs ! i) \<and>
          e_level (es ! i) \<in> {H 1, H 2, H 3} \<and>
          (\<exists>j<length centers. rev (sort centers) ! j = centers ! (labels ! i) \<and>
                               e_level (es ! i) = H (j + 1))" if i: "i < length hs" for i
  proof -
    from i a(4) have "labels ! i \<in> set labels" by simp
    with a(5) have "labels ! i < length centers" by blast
    then have "centers ! (labels ! i) \<in> set (rev (sort centers))" by simp
    from size_to_level_lookup [OF this, of 0 Map.empty] obtain j where
      j: "j < length (rev (sort centers))" "rev (sort centers) ! j = centers ! (labels ! i)"
         "?m (centers ! (labels ! i)) = Some (H (0 + j + 1))" by blast
    from es(3) i have e: "es ! i = entry_at ?m ?k centers labels i (hs ! i)" by blast
    from j(3) have lv: "e_level (es ! i) = H (j + 1)" unfolding e by (simp add: entry_at_def)
    from j(1) a(3) have "j < 3" by simp
    then have "j = 0 \<or> j = 1 \<or> j = 2" by arith
    with lv have "e_level (es ! i) \<in> {H 1, H 2, H 3}" by auto
    moreover have "e_text (es ! i) = f_text (hs ! i)" unfolding e by (simp add: entry_at_def)
    moreover from j(1,2) lv have "\<exists>j<length centers. rev (sort centers) ! j = centers ! (labels ! i) \<and>
                               e_level (es ! i) = H (j + 1)" by auto
    ultimately show ?thesis by blast
  qed
  from 1 es(2) 3 show "\<exists>outline. assign_heading_levels km hs = Inr outline \<and> length outline = length hs \<and>
       (\<forall>i<length hs.
          e_text (outline ! i) = f_text (hs ! i) \<and>
          e_level (outline ! i) \<in> {H 1, H 2, H 3} \<and>
          (\<exists>j<length centers. rev (sort centers) ! j = centers ! (labels ! i) \<and>
                               e_level (outline ! i) = H (j + 1)))"
    by blast
qed

text \<open>Witness for C3: the three candidates of 18, 14 and 10 units.\<close>

theorem level_assignment_witness:
  "map f_font_size sized_candidates = [18, 14, 10] \<and>
   kmeans_fit_ok 3 [18, 14, 10] (distinct_values_fit 3 [18, 14, 10]) \<and>
   2 \<le> length sized_candidates \<and>
   distinct_values_fit (min (card (set (map f_font_size sized_candidates))) 3)
     (map f_font_size sized_candidates) = ([18, 14, 10], [0, 1, 2]) \<and>
   (\<exists>outline. assign_heading_levels distinct_values_fit sized_candidates = Inr outline \<and>
      length outline = length sized_candidates) \<and>
   (\<exists>outline. assign_heading_levels distinct_values_fit sized_candidates = Inr outline \<and>
      map e_level outline = [H 1, H 2, H 3])"
proof -
  note la = level_assignment [of distinct_values_fit "hd sized_candidates" sized_candidates
      "[18, 14, 10]" "[0, 1, 2]" sized_candidates]
  have 1: "map f_font_size sized_candidates = [18, 14, 10]" by code_simp
  have 2: "kmeans_fit_ok 3 [18, 14, 10] (distinct_values_fit 3 [18, 14, 10])" by code_simp
  have 3: "2 \<le> length sized_candidates" by (simp add: sized_candidates_def)
  have 4: "distinct_values_fit (min (card (set (map f_font_size sized_candidates))) 3)
     (map f_font_size sized_candidates) = ([18, 14, 10], [0, 1, 2])" by code_simp
  have 5: "length [18, 14, 10 :: real] = min (card (set (map f_font_size sized_candidates))) 3"
    by code_simp
  have 6: "length [0, 1, 2 :: nat] = length sized_candidates" by (simp add: sized_candidates_def)
  have 7: "l < length [18, 14, 10 :: real]" if "l \<in> set [0, 1, 2 :: nat]" for l
    using that by auto
  from la [THEN conjunct2, THEN conjunct2, THEN conjunct1, rule_format, OF 3 4 5 6 7]
  have c: "\<exists>outline. assign_heading_levels distinct_values_fit sized_candidates = Inr outline \<and>
      length outline = length sized_candidates" by blast
  from la [THEN conjunct2, THEN conjunct2, THEN conjunct2, rule_format, OF 1 2]
  have d: "\<exists>outline. assign_heading_levels distinct_values_fit sized_candidates = Inr outline \<and>
      map e_level outline = [H 1, H 2, H 3]" .
  from 1 2 3 4 c d show ?thesis by (intro conjI)
qed

end
